theory Spec2Isabelle
  imports Main "HOL-Library.Sublist" "HOL-Library.Word"
begin

section \<open>Errors\<close>

text \<open>
  Go error values that occur in the walker: \<open>io.EOF\<close>, an error made by
  \<open>fmt.Errorf\<close> (or any other plain error, known by its message), and the
  program's own \<open>*leafError\<close>, which holds an inner error.
\<close>

datatype error = EOF | ErrorString string | LeafError error

text \<open>The \<open>Error()\<close> method; \<open>leafError.Error\<close> is
  \<open>fmt.Sprintf("Leaf error: %v", l.inner)\<close>.\<close>

fun Error :: "error \<Rightarrow> string" where
  "Error EOF = ''EOF''"
| "Error (ErrorString s) = s"
| "Error (LeafError inner) = ''Leaf error: '' @ Error inner"

text \<open>The type assertion \<open>err.(*leafError)\<close> of \<open>handleWalkError\<close>.\<close>

fun is_leafError :: "error \<Rightarrow> bool" where
  "is_leafError (LeafError e) = True"
| "is_leafError e = False"

section \<open>Strings and paths\<close>

text \<open>\<open>strings.Contains(s, substr)\<close>: \<open>substr\<close> occurs in \<open>s\<close> as a
  contiguous piece.\<close>

fun Contains :: "string \<Rightarrow> string \<Rightarrow> bool" where
  "Contains [] substr = (substr = [])"
| "Contains (c # s) substr = (prefix substr (c # s) \<or> Contains s substr)"

text \<open>
  \<open>path.Clean\<close> of the Go standard library, which \<open>path.Join\<close> applies to
  its result. The library keeps a read index \<open>r\<close> into the path, an output buffer
  of \<open>w\<close> bytes and the index \<open>dotdot\<close> below which the output may not be
  cut back. Here the unread rest of the path is the argument, the buffer is the
  string \<open>out\<close> and \<open>w\<close> is its length.
\<close>

text \<open>The inner loop of the \<open>..\<close> case:
  \<open>for out.w > dotdot && out.index(out.w) != '/' { out.w-- }\<close>.\<close>

fun backtrack :: "nat \<Rightarrow> string \<Rightarrow> nat \<Rightarrow> nat" where
  "backtrack dotdot buf 0 = 0"
| "backtrack dotdot buf (Suc w) =
     (if Suc w > dotdot \<and> buf ! (Suc w) \<noteq> CHR ''/''
      then backtrack dotdot buf w else Suc w)"

function Clean_loop :: "bool \<Rightarrow> string \<Rightarrow> nat \<Rightarrow> string \<Rightarrow> string" where
  "Clean_loop rooted out dotdot [] = out"
| "Clean_loop rooted out dotdot (c # rest) =
     (if c = CHR ''/'' then Clean_loop rooted out dotdot rest
      else if c = CHR ''.'' \<and> (rest = [] \<or> hd rest = CHR ''/'')
        then Clean_loop rooted out dotdot rest
      else if c = CHR ''.'' \<and> hd rest = CHR ''.''
              \<and> (tl rest = [] \<or> hd (tl rest) = CHR ''/'')
        then (if length out > dotdot
              then Clean_loop rooted
                     (take (backtrack dotdot out (length out - 1)) out)
                     dotdot (tl rest)
              else if \<not> rooted
              then (let out' = (if length out > 0 then out @ ''/'' else out) @ ''..''
                    in Clean_loop rooted out' (length out') (tl rest))
              else Clean_loop rooted out dotdot (tl rest))
      else (let out' = (if rooted \<and> length out \<noteq> 1 \<or> \<not> rooted \<and> length out \<noteq> 0
                        then out @ ''/'' else out)
            in Clean_loop rooted
                 (out' @ takeWhile (\<lambda>x. x \<noteq> CHR ''/'') (c # rest))
                 dotdot
                 (dropWhile (\<lambda>x. x \<noteq> CHR ''/'') (c # rest))))"
  by pat_completeness auto
termination
proof (relation "measure (\<lambda>(rooted, out, dotdot, p). length p)", goal_cases)
  case 1
  show ?case by simp
next
  case (2 rooted out dotdot c rest)
  then show ?case by simp
next
  case (3 rooted out dotdot c rest)
  then show ?case by simp
next
  case (4 rooted out dotdot c rest)
  then show ?case by (cases rest) auto
next
  case (5 rooted out dotdot c rest)
  then show ?case by (cases rest) auto
next
  case (6 rooted out dotdot c rest)
  then show ?case by (cases rest) auto
next
  case (7 rooted out dotdot c rest)
  then show ?case
    by (simp add: le_imp_less_Suc length_dropWhile_le)
qed

definition Clean :: "string \<Rightarrow> string" where
  "Clean p =
     (if p = [] then ''.''
      else (let rooted = (hd p = CHR ''/'');
                out = Clean_loop rooted (if rooted then ''/'' else [])
                        (if rooted then 1 else 0) (if rooted then tl p else p)
            in if out = [] then ''.'' else out))"

text \<open>\<open>strings.Join(elems, "/")\<close>.\<close>

fun join_slash :: "string list \<Rightarrow> string" where
  "join_slash [] = []"
| "join_slash [e] = e"
| "join_slash (e # es) = e @ ''/'' @ join_slash es"

text \<open>\<open>path.Join\<close>: empty elements are ignored, the others are joined by
  slashes and the result is cleaned; all elements empty gives the empty string.\<close>

definition path_Join :: "string list \<Rightarrow> string" where
  "path_Join elem =
     (let es = filter (\<lambda>e. e \<noteq> []) elem
      in if es = [] then [] else Clean (join_slash es))"

section \<open>HTML tokens and the anchor extractor\<close>

text \<open>
  What the walker reads of \<open>golang.org/x/net/html\<close>. A token has a type, the
  tag name in \<open>Data\<close> and its attributes. \<open>ErrorToken\<close> is not a member of
  \<open>TokenType\<close> here: the tokenizer returns it once, at the end of the stream,
  and the end of the token list stands for it.
\<close>

datatype TokenType = TextToken | StartTagToken | EndTagToken
  | SelfClosingTagToken | CommentToken | DoctypeToken

record Attribute =
  Namespace :: string
  Key :: string
  Val :: string

record Token =
  Type :: TokenType
  Data :: string
  Attr :: "Attribute list"

text \<open>
  A response body as the tokenizer delivers it: the tokens in document order and
  the error of the final \<open>ErrorToken\<close>, which is \<open>io.EOF\<close> at the end of a
  document that was read completely.
\<close>

record Body =
  tokens :: "Token list"
  final_err :: error

text \<open>\<open>getHref\<close>: the loop over the attributes assigns at every \<open>href\<close>, so
  the last one wins; with none the result is \<open>(false, "")\<close>.\<close>

fun getHref_loop :: "Attribute list \<Rightarrow> bool \<times> string \<Rightarrow> bool \<times> string" where
  "getHref_loop [] r = r"
| "getHref_loop (a # as) r =
     getHref_loop as (if Key a = ''href'' then (True, Val a) else r)"

definition getHref :: "Token \<Rightarrow> bool \<times> string" where
  "getHref t = getHref_loop (Attr t) (False, [])"

text \<open>
  \<open>%v\<close> of a start tag token, \<open>html.Token.String\<close>: the tag name and the
  attributes as \<open>key="val"\<close>, the value escaped as the library's \<open>escape\<close>
  does it (ampersand, apostrophe, the angle brackets, the double quote and the
  carriage return become character references). The namespace is not printed.
\<close>

fun escape :: "string \<Rightarrow> string" where
  "escape [] = []"
| "escape (c # cs) =
     (if c = CHR ''&'' then ''&amp;''
      else if c = CHR 0x27 then ''&#39;''
      else if c = CHR ''<'' then ''&lt;''
      else if c = CHR ''>'' then ''&gt;''
      else if c = CHR 0x22 then ''&#34;''
      else if c = CHR 0x0D then ''&#13;''
      else [c]) @ escape cs"

fun attrString :: "Attribute list \<Rightarrow> string" where
  "attrString [] = []"
| "attrString (a # as) = '' '' @ Key a @ ''=\"'' @ escape (Val a) @ ''\"'' @ attrString as"

definition tokenString :: "Token \<Rightarrow> string" where
  "tokenString t = ''<'' @ Data t @ attrString (Attr t) @ ''>''"

definition isAnchor :: "Token \<Rightarrow> bool" where
  "isAnchor t = (Type t = StartTagToken \<and> Data t = ''a'')"

text \<open>
  The loop \<open>for err == nil\<close> of \<open>getNodes\<close>. Each round takes the next token;
  at the end of the stream \<open>err\<close> becomes the tokenizer's error and the loop ends.
  At an anchor without \<open>href\<close> the error is set, and the test
  \<open>!strings.Contains(remotePath, node)\<close> is still made, on the empty \<open>node\<close>.
  The result is the node list and the error that ended the loop.
\<close>

fun getNodes_loop :: "string \<Rightarrow> Token list \<Rightarrow> error \<Rightarrow> string list \<Rightarrow> string list \<times> error" where
  "getNodes_loop remotePath [] fin nodes = (nodes, fin)"
| "getNodes_loop remotePath (t # ts) fin nodes =
     (if isAnchor t then
        (let (ok, node) = getHref t;
             err = (if \<not> ok then Some (ErrorString (''No url for '' @ tokenString t)) else None);
             nodes' = (if \<not> Contains remotePath node then nodes @ [node] else nodes)
         in case err of
              None \<Rightarrow> getNodes_loop remotePath ts fin nodes'
            | Some e \<Rightarrow> (nodes', e))
      else getNodes_loop remotePath ts fin nodes)"

text \<open>\<open>getNodes\<close>: after the loop, \<open>io.EOF\<close> is turned into \<open>nil\<close>.\<close>

definition getNodes :: "string \<Rightarrow> Body \<Rightarrow> string list \<times> error option" where
  "getNodes remotePath body =
     (let (nodes, err) = getNodes_loop remotePath (tokens body) (final_err body) []
      in (nodes, if err = EOF then None else Some err))"

section \<open>Responses and the Fetcher\<close>

text \<open>
  The fields of \<open>*http.Response\<close> that the walker reads: \<open>resp.Request.URL\<close>,
  \<open>resp.Status\<close>, \<open>resp.Header.Get("Content-Type")\<close> and the body.
\<close>

record Response =
  RequestURL :: string
  Status :: string
  ContentTypeHeader :: string
  RespBody :: Body

text \<open>\<open>getContentType\<close>: \<open>strings.Split(h, ";")[0]\<close>, the header up to its
  first semicolon.\<close>

definition getContentType :: "Response \<Rightarrow> string" where
  "getContentType resp = takeWhile (\<lambda>c. c \<noteq> CHR '';'') (ContentTypeHeader resp)"

text \<open>
  The Fetcher \<open>get\<close> hands the request to \<open>backoff.RetryNotify\<close> and returns
  Go's pair \<open>(resp, err)\<close> as the library leaves it. Both the retry library and
  the HTTP client are outside the repository, so the walker takes the Fetcher as
  a parameter: a function of the URL and the state of the world that returns the
  pair and the new state. A \<open>nil\<close> response is \<open>None\<close>.
\<close>

type_synonym 's getter = "string \<Rightarrow> 's \<Rightarrow> (Response option \<times> error option) \<times> 's"

section \<open>Visitors\<close>

text \<open>
  \<open>indexAction\<close> and \<open>leafAction\<close> are closures: they return an error or
  \<open>nil\<close> and may change the state they are closed over (and the file system),
  which is the state \<open>'s\<close> passed through the walk. \<open>depth\<close> is a Go \<open>int\<close>.
\<close>

type_synonym 's indexAction = "string \<Rightarrow> string \<Rightarrow> 64 word \<Rightarrow> 's \<Rightarrow> error option \<times> 's"
type_synonym 's leafAction = "Response \<Rightarrow> string \<Rightarrow> string \<Rightarrow> 's \<Rightarrow> error option \<times> 's"

definition doNothingOnLeaf :: "'s leafAction" where
  "doNothingOnLeaf resp path contentType s = (None, s)"

text \<open>
  The leaf visitor of the \<open>fetch\<close> command. For \<open>image/png\<close> and
  \<open>image/jpeg\<close> it stores the body in the local file system (\<open>os.Stat\<close>,
  \<open>os.MkdirAll\<close>, \<open>os.Create\<close>, \<open>io.Copy\<close>, the download counter), which is
  the parameter \<open>saveImage\<close>; for every other content type it returns
  \<open>fmt.Errorf("Unknown content type %v:%v", ct, node)\<close>.
\<close>

definition fetch_onLeaf :: "(Response \<Rightarrow> string \<Rightarrow> 's \<Rightarrow> error option \<times> 's) \<Rightarrow> 's leafAction" where
  "fetch_onLeaf saveImage resp node ct s =
     (if ct = ''image/png'' \<or> ct = ''image/jpeg''
      then saveImage resp node s
      else (Some (ErrorString (''Unknown content type '' @ ct @ '':'' @ node)), s))"

section \<open>The tree walker\<close>

text \<open>
  What a walk does that can be seen from outside, in order: the requests it
  makes, the visitor calls and the lines it logs.
\<close>

datatype event =
    Get string
  | OnIndex string string "64 word"
  | OnLeaf string string
  | Log string

text \<open>The URLs that a walk requested, in the order of the requests.\<close>

fun fetched :: "event list \<Rightarrow> string list" where
  "fetched [] = []"
| "fetched (Get url # evs) = url # fetched evs"
| "fetched (e # evs) = fetched evs"

text \<open>A Go call returns its value or panics.\<close>

datatype 'a outcome = Return 'a | Panic

text \<open>\<open>handleWalkError\<close>: a \<open>*leafError\<close> is logged and replaced by \<open>nil\<close>,
  every other error is returned as it is.\<close>

fun handleWalkError :: "error option \<Rightarrow> event list \<times> error option" where
  "handleWalkError None = ([], None)"
| "handleWalkError (Some e) =
     (if is_leafError e then ([Log (Error e)], None) else ([], Some e))"

text \<open>
  The end of \<open>walkPath\<close>, from \<open>if err != nil\<close> on. Both branches read
  \<open>resp.Request.URL\<close> and \<open>resp.Status\<close>, which panics on a \<open>nil\<close> response.
\<close>

definition walkPath_end :: "Response option \<Rightarrow> error option \<Rightarrow> bool \<Rightarrow> string
    \<Rightarrow> event list \<times> error option outcome" where
  "walkPath_end resp err verbose ct =
     (case err of
        Some e \<Rightarrow>
          (case resp of
             None \<Rightarrow> ([], Panic)
           | Some r \<Rightarrow>
               ([], Return (Some (ErrorString
                      (RequestURL r @ '' '' @ Status r @ '': '' @ Error e)))))
      | None \<Rightarrow>
          (if verbose then
             (case resp of
                None \<Rightarrow> ([], Panic)
              | Some r \<Rightarrow>
                  ([Log (''Done with: '' @ RequestURL r @ '' '' @ Status r @ '' '' @ ct)],
                   Return None))
           else ([], Return None)))"

text \<open>Events that happened before those of a call that follows.\<close>

definition after :: "event list \<Rightarrow> ('s \<times> event list \<times> 'r) option
    \<Rightarrow> ('s \<times> event list \<times> 'r) option" where
  "after evs res = map_option (\<lambda>(s, tr, r). (s, evs @ tr, r)) res"

text \<open>
  \<open>walkPath\<close> and its loop over the nodes, \<open>walkNodes\<close>. The gallery may be
  infinitely deep (or link back to itself), so the recursion has fuel: the first
  argument bounds the depth of the calls and \<open>None\<close> means that it ran out. The
  result is the final state, the events in order, and what the call returned.

  In the \<open>text/html\<close> case, \<open>nodes, err := getNodes(remotePath, body)\<close> declares
  a new \<open>err\<close> in the scope of the case clause. The loop assigns to that variable
  and breaks on it, and the \<open>err\<close> of the function, read after the \<open>switch\<close>,
  is still \<open>nil\<close>. \<open>walkNodes\<close> returns the inner variable as the loop leaves
  it; \<open>walkPath\<close> drops it.
\<close>

fun walkPath :: "nat \<Rightarrow> 's getter \<Rightarrow> string \<Rightarrow> string \<Rightarrow> bool \<Rightarrow> 64 word \<Rightarrow> bool
      \<Rightarrow> 's indexAction \<Rightarrow> 's leafAction \<Rightarrow> 's
      \<Rightarrow> ('s \<times> event list \<times> error option outcome) option"
  and walkNodes :: "nat \<Rightarrow> 's getter \<Rightarrow> string \<Rightarrow> string \<Rightarrow> bool \<Rightarrow> 64 word \<Rightarrow> bool
      \<Rightarrow> 's indexAction \<Rightarrow> 's leafAction \<Rightarrow> string list \<Rightarrow> 's
      \<Rightarrow> ('s \<times> event list \<times> error option outcome) option"
  where
  "walkPath 0 get address base recurse depth verbose onIndex onLeaf s = None"
| "walkPath (Suc n) get address base recurse depth verbose onIndex onLeaf s =
     (let remotePath = path_Join [''/var/albums'', base];
          url = address @ remotePath;
          ((resp, err), s1) = get url s
      in case err of
           Some e \<Rightarrow>
             (let (evs, r) = walkPath_end resp err verbose [] in Some (s1, Get url # evs, r))
         | None \<Rightarrow>
             (case resp of
                None \<Rightarrow> Some (s1, [Get url], Panic)
              | Some rsp \<Rightarrow>
                  (let ct = getContentType rsp in
                   if ct = ''text/html'' then
                     (let (nodes, err_inner) = getNodes remotePath (RespBody rsp) in
                      case err_inner of
                        Some e \<Rightarrow>
                          (let (evs, r) = walkPath_end resp None verbose ct
                           in Some (s1, Get url # evs, r))
                      | None \<Rightarrow>
                          (case walkNodes n get address base recurse depth verbose
                                  onIndex onLeaf nodes s1 of
                             None \<Rightarrow> None
                           | Some (s2, tr, Panic) \<Rightarrow> Some (s2, Get url # tr, Panic)
                           | Some (s2, tr, Return err_inner') \<Rightarrow>
                               (let (evs, r) = walkPath_end resp None verbose ct
                                in Some (s2, Get url # tr @ evs, r))))
                   else
                     (let (e, s2) = onLeaf rsp base ct s1;
                          err' = map_option LeafError e;
                          (evs, r) = walkPath_end resp err' verbose ct
                      in Some (s2, Get url # OnLeaf base ct # evs, r)))))"
| "walkNodes n get address base recurse depth verbose onIndex onLeaf [] s =
     Some (s, [], Return None)"
| "walkNodes n get address base recurse depth verbose onIndex onLeaf (node # rest) s =
     (let (err, s1) = onIndex base node depth s in
      if err = None \<and> recurse then
        (let next = path_Join [base, node] in
         case walkPath n get address next recurse (depth + 1) verbose onIndex onLeaf s1 of
           None \<Rightarrow> None
         | Some (s2, tr, Panic) \<Rightarrow> Some (s2, OnIndex base node depth # tr, Panic)
         | Some (s2, tr, Return e) \<Rightarrow>
             (let (lg, err') = handleWalkError e in
              case err' of
                Some e' \<Rightarrow> Some (s2, OnIndex base node depth # tr @ lg, Return err')
              | None \<Rightarrow>
                  after (OnIndex base node depth # tr @ lg)
                    (walkNodes n get address base recurse depth verbose
                       onIndex onLeaf rest s2)))
      else
        (case err of
           Some e \<Rightarrow> Some (s1, [OnIndex base node depth], Return err)
         | None \<Rightarrow>
             after [OnIndex base node depth]
               (walkNodes n get address base recurse depth verbose
                  onIndex onLeaf rest s1)))"

section \<open>A two-level gallery\<close>

text \<open>
  The gallery of the specification's examples: the root lists \<open>A\<close> and \<open>B\<close>,
  \<open>A\<close> lists \<open>A1\<close> and \<open>A2\<close>, and \<open>A1\<close>, \<open>A2\<close> and \<open>B\<close> are files.
  The content type of \<open>A1\<close> is a parameter; the other files are JPEG images.
  The server answers every request at the first attempt.
\<close>

definition anchor :: "string \<Rightarrow> Token" where
  "anchor h = \<lparr>Type = StartTagToken, Data = ''a'',
               Attr = [\<lparr>Namespace = [], Key = ''href'', Val = h\<rparr>]\<rparr>"

definition index_page :: "string \<Rightarrow> string list \<Rightarrow> Response" where
  "index_page url hrefs =
     \<lparr>RequestURL = url, Status = ''200 OK'',
      ContentTypeHeader = ''text/html; charset=utf-8'',
      RespBody = \<lparr>tokens = map anchor hrefs, final_err = EOF\<rparr>\<rparr>"

definition file_page :: "string \<Rightarrow> string \<Rightarrow> Response" where
  "file_page url ct =
     \<lparr>RequestURL = url, Status = ''200 OK'', ContentTypeHeader = ct,
      RespBody = \<lparr>tokens = [], final_err = EOF\<rparr>\<rparr>"

definition gallery :: "string \<Rightarrow> unit getter" where
  "gallery ctA1 url s =
     (if url = ''http://g/var/albums'' then ((Some (index_page url [''A'', ''B'']), None), s)
      else if url = ''http://g/var/albums/A''
        then ((Some (index_page url [''A1'', ''A2'']), None), s)
      else if url = ''http://g/var/albums/A/A1'' then ((Some (file_page url ctA1), None), s)
      else ((Some (file_page url ''image/jpeg''), None), s))"

text \<open>Visitors that succeed, and an index visitor that fails at the node \<open>A2\<close>.\<close>

definition saveOk :: "Response \<Rightarrow> string \<Rightarrow> unit \<Rightarrow> error option \<times> unit" where
  "saveOk resp node s = (None, s)"

definition indexOk :: "unit indexAction" where
  "indexOk base node depth s = (None, s)"

definition indexFailsAtA2 :: "unit indexAction" where
  "indexFailsAtA2 base node depth s =
     (if node = ''A2'' then (Some (ErrorString ''stat A/A2: permission denied''), s)
      else (None, s))"

text \<open>A server that cannot be reached: every request ends with a transport error
  and no response, as \<open>http.Client.Get\<close> returns it.\<close>

definition unreachable :: "unit getter" where
  "unreachable url s = ((None, Some (ErrorString ''dial tcp: connection refused'')), s)"

text \<open>A gallery whose root listing has an anchor without \<open>href\<close> between the
  links \<open>A\<close> and \<open>B\<close>.\<close>

definition malformed_listing :: "unit getter" where
  "malformed_listing url s =
     (if url = ''http://g/var/albums''
      then ((Some \<lparr>RequestURL = url, Status = ''200 OK'',
                   ContentTypeHeader = ''text/html'',
                   RespBody =
                     \<lparr>tokens = [anchor ''A'',
                                \<lparr>Type = StartTagToken, Data = ''a'',
                                 Attr = [\<lparr>Namespace = [], Key = ''name'', Val = ''top''\<rparr>]\<rparr>,
                                anchor ''B''],
                      final_err = EOF\<rparr>\<rparr>, None), s)
      else ((Some (file_page url ''image/jpeg''), None), s))"

text \<open>A server that lists the directory \<open>albums\<close> at \<open>/var\<close>, the parent of
  the gallery's prefix.\<close>

definition parent_listing :: "unit getter" where
  "parent_listing url s =
     (if url = ''http://g/var'' then ((Some (index_page url [''albums'']), None), s)
      else ((Some (file_page url ''image/jpeg''), None), s))"

text \<open>A server whose listing of the album \<open>A\<close> has a link named \<open>albums\<close>
  before the link \<open>A1\<close>.\<close>

definition albums_listing :: "unit getter" where
  "albums_listing url s =
     (if url = ''http://g/var/albums/A''
      then ((Some (index_page url [''albums'', ''A1'']), None), s)
      else ((Some (file_page url ''image/jpeg''), None), s))"

section \<open>The anchor extractor\<close>

text \<open>\<open>Contains\<close> is the contiguous-sublist relation of the list library.\<close>

lemma Contains_iff_sublist: "Contains s substr \<longleftrightarrow> sublist substr s"
  by (induction s) (simp_all add: sublist_Cons_right)

lemma Contains_empty: "Contains s []"
  by (cases s) simp_all

text \<open>When every anchor has an \<open>href\<close> the loop runs to the end of the stream
  and appends the hrefs that pass the test, in order.\<close>

lemma getNodes_loop_all_href:
  assumes "\<forall>t \<in> set ts. isAnchor t \<longrightarrow> fst (getHref t)"
  shows "getNodes_loop rp ts fin acc =
           (acc @ filter (\<lambda>h. \<not> Contains rp h)
                    (map (\<lambda>t. snd (getHref t)) (filter isAnchor ts)), fin)"
  using assms
proof (induction ts arbitrary: acc)
  case Nil
  then show ?case by simp
next
  case (Cons t ts)
  then have rest: "\<forall>t \<in> set ts. isAnchor t \<longrightarrow> fst (getHref t)" by simp
  show ?case
  proof (cases "isAnchor t")
    case False
    then show ?thesis using Cons.IH [OF rest] by simp
  next
    case True
    with Cons.prems have ok: "fst (getHref t)" by simp
    obtain h where h: "getHref t = (True, h)" using ok by (cases "getHref t") simp
    show ?thesis using True h Cons.IH [OF rest] by simp
  qed
qed

text \<open>
  Claim C5. For every current remote path and every body whose anchors all carry
  an \<open>href\<close>, \<open>getNodes\<close> yields exactly the hrefs that are not substrings of
  the remote path, in the document order of the anchors. In particular, when
  exactly one href is a substring of the path, the result is all the others in
  their order. At a completely read document no error is returned.
\<close>

theorem getNodes_yields_unexcluded_hrefs:
  assumes "\<forall>t \<in> set (tokens body). isAnchor t \<longrightarrow> fst (getHref t)"
  shows "fst (getNodes remotePath body) =
           filter (\<lambda>h. \<not> Contains remotePath h)
             (map (\<lambda>t. snd (getHref t)) (filter isAnchor (tokens body)))
         \<and> (\<forall>pre h post.
               map (\<lambda>t. snd (getHref t)) (filter isAnchor (tokens body)) = pre @ h # post
               \<and> Contains remotePath h
               \<and> (\<forall>x \<in> set (pre @ post). \<not> Contains remotePath x)
               \<longrightarrow> fst (getNodes remotePath body) = pre @ post)
         \<and> (final_err body = EOF \<longrightarrow> snd (getNodes remotePath body) = None)"
proof -
  let ?hs = "map (\<lambda>t. snd (getHref t)) (filter isAnchor (tokens body))"
  have nodes: "fst (getNodes remotePath body) = filter (\<lambda>h. \<not> Contains remotePath h) ?hs"
    by (simp add: getNodes_def getNodes_loop_all_href [OF assms])
  have err: "final_err body = EOF \<longrightarrow> snd (getNodes remotePath body) = None"
    by (simp add: getNodes_def getNodes_loop_all_href [OF assms])
  have one: "fst (getNodes remotePath body) = pre @ post"
    if "?hs = pre @ h # post" "Contains remotePath h"
       "\<forall>x \<in> set (pre @ post). \<not> Contains remotePath x" for pre h post
  proof -
    have "filter (\<lambda>h. \<not> Contains remotePath h) (pre @ h # post) = pre @ post"
      using that(2,3) by (simp add: filter_id_conv)
    then show ?thesis using nodes that(1) by simp
  qed
  show ?thesis using nodes err one by blast
qed

theorem getNodes_yields_unexcluded_hrefs_witness:
  "fst (getNodes ''/var/albums/x''
          \<lparr>tokens = [anchor ''x'', anchor ''y'', anchor ''z''], final_err = EOF\<rparr>)
     = [''y'', ''z'']"
  using getNodes_yields_unexcluded_hrefs
    [of "\<lparr>tokens = [anchor ''x'', anchor ''y'', anchor ''z''], final_err = EOF\<rparr>"
        "''/var/albums/x''"]
  by (simp add: anchor_def isAnchor_def getHref_def)

lemma getNodes_loop_drop_empty_href:
  assumes "isAnchor t" and "getHref t = (True, [])"
  shows "getNodes_loop rp (pre @ t # post) fin acc = getNodes_loop rp (pre @ post) fin acc"
proof (induction pre arbitrary: acc)
  case Nil
  show ?case using assms by (simp add: Contains_empty)
next
  case (Cons p pre)
  show ?case by (simp add: Cons.IH split: prod.splits option.splits)
qed

text \<open>
  Claim C9. An anchor whose \<open>href\<close> attribute is present and empty is dropped
  silently, whatever the remote path: the extraction gives the nodes and the
  error it gives on the body without that anchor, so the anchor yields no node
  and no missing-href error.
\<close>

theorem getNodes_drops_empty_href:
  assumes "isAnchor t" and "getHref t = (True, [])"
  shows "getNodes remotePath \<lparr>tokens = pre @ t # post, final_err = fin\<rparr>
           = getNodes remotePath \<lparr>tokens = pre @ post, final_err = fin\<rparr>"
  by (simp add: getNodes_def getNodes_loop_drop_empty_href [OF assms])

theorem getNodes_drops_empty_href_witness:
  "getNodes ''/var/albums/x''
     \<lparr>tokens = [anchor ''y'', anchor [], anchor ''z''], final_err = EOF\<rparr>
     = ([''y'', ''z''], None)"
  using getNodes_drops_empty_href [where t = "anchor []" and pre = "[anchor ''y'']"
      and post = "[anchor ''z'']" and remotePath = "''/var/albums/x''" and fin = EOF]
  by (simp add: anchor_def isAnchor_def getHref_def getNodes_def)

section \<open>A leaf as the walk's only target\<close>

text \<open>
  Claim C8. In a walk without recursion whose first response has a content type
  that is neither \<open>text/html\<close> nor one of the two image types of the \<open>fetch\<close>
  command, the leaf visitor is called once and its unknown-content-type error is
  what the walk returns to the command, inside the walker's wrapping with the
  URL and the status; it is not dropped.
\<close>

theorem fetch_unknown_content_type_at_top_level:
  assumes "get (address @ path_Join [''/var/albums'', base]) s = ((Some rsp, None), s')"
    and "ct = getContentType rsp"
    and "ct \<noteq> ''text/html''" and "ct \<noteq> ''image/jpeg''" and "ct \<noteq> ''image/png''"
  shows "walkPath (Suc n) get address base False 0 verbose onIndex (fetch_onLeaf saveImage) s =
           Some (s',
                 [Get (address @ path_Join [''/var/albums'', base]), OnLeaf base ct],
                 Return (Some (ErrorString
                   (RequestURL rsp @ '' '' @ Status rsp
                      @ '': Leaf error: Unknown content type '' @ ct @ '':'' @ base))))"
  using assms by (simp add: fetch_onLeaf_def walkPath_end_def Let_def)

theorem fetch_unknown_content_type_at_top_level_witness:
  "walkPath 1 (gallery ''application/pdf'') ''http://g'' ''A/A1'' False 0 False
      indexOk (fetch_onLeaf saveOk) ()
     = Some ((), [Get ''http://g/var/albums/A/A1'', OnLeaf ''A/A1'' ''application/pdf''],
         Return (Some (ErrorString
           ''http://g/var/albums/A/A1 200 OK: Leaf error: Unknown content type application/pdf:A/A1'')))"
proof -
  have p: "path_Join [''/var/albums'', ''A/A1''] = ''/var/albums/A/A1''" by code_simp
  have g: "gallery ''application/pdf'' (''http://g'' @ path_Join [''/var/albums'', ''A/A1'']) ()
             = ((Some (file_page ''http://g/var/albums/A/A1'' ''application/pdf''), None), ())"
    unfolding p by (simp add: gallery_def)
  have c: "getContentType (file_page ''http://g/var/albums/A/A1'' ''application/pdf'')
             = ''application/pdf''"
    by (simp add: getContentType_def file_page_def)
  show ?thesis
    using fetch_unknown_content_type_at_top_level
      [where get = "gallery ''application/pdf''" and address = "''http://g''"
         and base = "''A/A1''" and s = "()" and s' = "()" and ct = "''application/pdf''"
         and rsp = "file_page ''http://g/var/albums/A/A1'' ''application/pdf''"
         and n = 0 and verbose = False and onIndex = indexOk and saveImage = saveOk]
      g c
    unfolding p by (simp add: file_page_def)
qed

section \<open>Depth-first order\<close>

text \<open>A loop over a nonempty node list that ran to its end without an error:
  the index visitor accepted the first node, the walk of that node returned
  nothing that \<open>handleWalkError\<close> keeps, and the loop went on with the rest.\<close>

lemma walkNodes_Cons_completed:
  assumes "walkNodes n get address base True depth verbose onIndex onLeaf (node # rest) s
             = Some (s', tr, Return None)"
  obtains s1 s2 trc e trr where
    "onIndex base node depth s = (None, s1)"
    "walkPath n get address (path_Join [base, node]) True (depth + 1) verbose onIndex onLeaf s1
       = Some (s2, trc, Return e)"
    "snd (handleWalkError e) = None"
    "walkNodes n get address base True depth verbose onIndex onLeaf rest s2
       = Some (s', trr, Return None)"
    "tr = OnIndex base node depth # trc @ fst (handleWalkError e) @ trr"
proof -
  obtain err s1 where oi: "onIndex base node depth s = (err, s1)"
    by (cases "onIndex base node depth s") simp
  have e0: "err = None"
    using assms oi by (cases err) simp_all
  obtain s2 trc r where wp:
    "walkPath n get address (path_Join [base, node]) True (depth + 1) verbose onIndex onLeaf s1
       = Some (s2, trc, r)"
    using assms oi e0
    by (cases "walkPath n get address (path_Join [base, node]) True (depth + 1) verbose
                 onIndex onLeaf s1") auto
  obtain e where r: "r = Return e"
    using assms oi e0 wp by (cases r) simp_all
  obtain lg err' where h: "handleWalkError e = (lg, err')"
    by (cases "handleWalkError e") simp
  have e1: "err' = None"
    using assms oi e0 wp r h by (cases err') simp_all
  have "after (OnIndex base node depth # trc @ lg)
          (walkNodes n get address base True depth verbose onIndex onLeaf rest s2)
        = Some (s', tr, Return None)"
    using assms oi e0 wp r h e1 by simp
  then obtain trr where
    "walkNodes n get address base True depth verbose onIndex onLeaf rest s2
       = Some (s', trr, Return None)"
    "tr = OnIndex base node depth # trc @ lg @ trr"
    by (auto simp: after_def)
  then show ?thesis using that oi e0 wp r h e1 by simp
qed

text \<open>
  The events of a completed loop are one block per node, in the order of the
  node list. The block of a node is the index visit of that node followed by
  all events of the walk of that node (and the log line of a contained leaf
  error), and the walk of a node starts in the state in which the block before
  it ended.
\<close>

lemma walkNodes_blocks:
  assumes "walkNodes n get address base True depth verbose onIndex onLeaf nodes s
             = Some (s', tr, Return None)"
  shows "\<exists>ss trs. length ss = Suc (length nodes) \<and> length trs = length nodes
           \<and> hd ss = s \<and> last ss = s' \<and> tr = concat trs
           \<and> (\<forall>i < length nodes. \<exists>s1 tri e.
                 onIndex base (nodes ! i) depth (ss ! i) = (None, s1)
                 \<and> walkPath n get address (path_Join [base, nodes ! i]) True (depth + 1)
                      verbose onIndex onLeaf s1 = Some (ss ! Suc i, tri, Return e)
                 \<and> snd (handleWalkError e) = None
                 \<and> trs ! i = OnIndex base (nodes ! i) depth # tri @ fst (handleWalkError e))"
  using assms
proof (induction nodes arbitrary: s tr)
  case Nil
  then have "s' = s" "tr = []" by simp_all
  then have "length [s] = Suc (length ([]::string list)) \<and> length ([]::event list list) = 0
      \<and> hd [s] = s \<and> last [s] = s' \<and> tr = concat []" by simp
  then show ?case by (intro exI [of _ "[s]"] exI [of _ "[]"]) simp
next
  case (Cons node rest)
  from Cons.prems obtain s1 s2 trc e trr where
    oi: "onIndex base node depth s = (None, s1)" and
    wp: "walkPath n get address (path_Join [base, node]) True (depth + 1) verbose onIndex onLeaf s1
           = Some (s2, trc, Return e)" and
    he: "snd (handleWalkError e) = None" and
    wn: "walkNodes n get address base True depth verbose onIndex onLeaf rest s2
           = Some (s', trr, Return None)" and
    tr: "tr = OnIndex base node depth # trc @ fst (handleWalkError e) @ trr"
    by (rule walkNodes_Cons_completed)
  from Cons.IH [OF wn] obtain ss trs where
    len: "length ss = Suc (length rest)" "length trs = length rest" and
    ends: "hd ss = s2" "last ss = s'" and
    cat: "trr = concat trs" and
    blocks: "\<forall>i < length rest. \<exists>s1 tri e.
                 onIndex base (rest ! i) depth (ss ! i) = (None, s1)
                 \<and> walkPath n get address (path_Join [base, rest ! i]) True (depth + 1)
                      verbose onIndex onLeaf s1 = Some (ss ! Suc i, tri, Return e)
                 \<and> snd (handleWalkError e) = None
                 \<and> trs ! i = OnIndex base (rest ! i) depth # tri @ fst (handleWalkError e)"
    by blast
  let ?b = "OnIndex base node depth # trc @ fst (handleWalkError e)"
  let ?ss = "s # ss" and ?trs = "?b # trs"
  have ne: "ss \<noteq> []" using len(1) by auto
  have ss0: "ss ! 0 = s2" using ends(1) ne by (simp add: hd_conv_nth)
  have step: "\<exists>s1 tri e.
                 onIndex base ((node # rest) ! i) depth (?ss ! i) = (None, s1)
                 \<and> walkPath n get address (path_Join [base, (node # rest) ! i]) True (depth + 1)
                      verbose onIndex onLeaf s1 = Some (?ss ! Suc i, tri, Return e)
                 \<and> snd (handleWalkError e) = None
                 \<and> ?trs ! i = OnIndex base ((node # rest) ! i) depth # tri @ fst (handleWalkError e)"
    if "i < length (node # rest)" for i
  proof (cases i)
    case 0
    then show ?thesis using oi wp he ss0 by simp
  next
    case (Suc j)
    then have "j < length rest" using that by simp
    then show ?thesis using blocks Suc by simp
  qed
  have "length ?ss = Suc (length (node # rest)) \<and> length ?trs = length (node # rest)
          \<and> hd ?ss = s \<and> last ?ss = s' \<and> tr = concat ?trs"
    using len ends ne cat tr by simp
  then show ?case using step by blast
qed

text \<open>
  Claim C6 says that in every successful recursive walk the links of a page are
  visited in document order and all of a link's subtree is walked before the
  next sibling begins, root, A, A1, A2, B on the two-level gallery. Where no
  visitor fails the walk makes its requests in that order. Where the leaf
  visitor fails at \<open>A1\<close>, which the specification counts as a successful walk,
  the walk returns \<open>nil\<close> as well, but the loop over the links of \<open>A\<close> has
  stopped after \<open>A1\<close>: the requests are root, A, A1, B, and \<open>B\<close> begins
  while \<open>A2\<close> has never been visited.
\<close>

theorem successful_walk_leaves_a_subtree_unfinished:
  "walkPath 3 (gallery ''image/jpeg'') ''http://g'' [] True 0 False indexOk
        (fetch_onLeaf saveOk) ()
     = Some ((),
         [Get ''http://g/var/albums'', OnIndex [] ''A'' 0,
          Get ''http://g/var/albums/A'', OnIndex ''A'' ''A1'' 1,
          Get ''http://g/var/albums/A/A1'', OnLeaf ''A/A1'' ''image/jpeg'',
          OnIndex ''A'' ''A2'' 1,
          Get ''http://g/var/albums/A/A2'', OnLeaf ''A/A2'' ''image/jpeg'',
          OnIndex [] ''B'' 0,
          Get ''http://g/var/albums/B'', OnLeaf ''B'' ''image/jpeg''],
         Return None)
   \<and> map_option (\<lambda>(s, tr, r). (fetched tr, r))
        (walkPath 3 (gallery ''application/pdf'') ''http://g'' [] True 0 False indexOk
           (fetch_onLeaf saveOk) ())
     = Some ([''http://g/var/albums'', ''http://g/var/albums/A'',
              ''http://g/var/albums/A/A1'', ''http://g/var/albums/B''],
             Return None)"
  by code_simp

section \<open>Errors in a walk\<close>

text \<open>
  What a walk can return. Every error passes the wrapping at the end of
  \<open>walkPath\<close>, so no returned error is a \<open>*leafError\<close>; and a walk of an index
  page returns \<open>nil\<close> whatever happened in its loop, because the loop's error
  lives in the \<open>err\<close> of the case clause.
\<close>

lemma walkPath_end_not_leafError:
  assumes "snd (walkPath_end resp err verbose ct) = Return (Some e)"
  shows "\<not> is_leafError e"
  using assms by (auto simp: walkPath_end_def split: option.splits if_splits)

lemma walkPath_result:
  assumes "walkPath n get address base recurse depth verbose onIndex onLeaf s = Some (s', tr, r)"
  shows "r = Panic \<or> (\<exists>resp err ct. r = snd (walkPath_end resp err verbose ct))"
proof (cases n)
  case 0
  then show ?thesis using assms by simp
next
  case (Suc m)
  show ?thesis
    using assms unfolding Suc
    by (simp add: Let_def split: prod.splits option.splits if_splits outcome.splits)
       (metis snd_conv)+
qed

lemma walkPath_never_returns_leafError:
  assumes "walkPath n get address base recurse depth verbose onIndex onLeaf s
             = Some (s', tr, Return (Some e))"
  shows "\<not> is_leafError e"
  using walkPath_result [OF assms] walkPath_end_not_leafError by (metis outcome.distinct(1))

lemma walkPath_index_page_returns_nil:
  assumes "get (address @ path_Join [''/var/albums'', base]) s = ((Some rsp, None), s1)"
    and "getContentType rsp = ''text/html''"
    and "walkPath n get address base recurse depth verbose onIndex onLeaf s = Some (s', tr, r)"
  shows "r = Return None \<or> r = Panic"
proof (cases n)
  case 0
  then show ?thesis using assms by simp
next
  case (Suc m)
  show ?thesis
    using assms unfolding Suc
    by (auto simp: Let_def walkPath_end_def
             split: prod.splits option.splits if_splits outcome.splits)
qed

text \<open>A Fetcher error that comes without a response makes the walk panic, at
  every base path.\<close>

lemma walkPath_fetch_error_without_response:
  assumes "get (address @ path_Join [''/var/albums'', base]) s = ((None, Some e), s1)"
  shows "walkPath (Suc n) get address base recurse depth verbose onIndex onLeaf s
           = Some (s1, [Get (address @ path_Join [''/var/albums'', base])], Panic)"
  using assms by (simp add: Let_def walkPath_end_def)

text \<open>
  Claim C1 says that after a leaf error of a child the parent logs it and goes
  on with the next sibling. In the gallery where \<open>A1\<close> has a content type that
  the leaf visitor of \<open>fetch\<close> rejects, the walk of \<open>A1\<close> returns the leaf
  error inside an error made by \<open>fmt.Errorf\<close>, which is no \<open>*leafError\<close>:
  \<open>handleWalkError\<close> keeps it, the loop over the links of \<open>A\<close> breaks, nothing
  is logged and \<open>A2\<close> is neither passed to the index visitor nor requested.
  The walk of \<open>A\<close> returns \<open>nil\<close> all the same, and \<open>B\<close> is walked.
\<close>

theorem leaf_error_stops_the_siblings:
  "walkPath 3 (gallery ''application/pdf'') ''http://g'' [] True 0 False indexOk
      (fetch_onLeaf saveOk) ()
   = Some ((),
       [Get ''http://g/var/albums'', OnIndex [] ''A'' 0,
        Get ''http://g/var/albums/A'', OnIndex ''A'' ''A1'' 1,
        Get ''http://g/var/albums/A/A1'', OnLeaf ''A/A1'' ''application/pdf'',
        OnIndex [] ''B'' 0, Get ''http://g/var/albums/B'', OnLeaf ''B'' ''image/jpeg''],
       Return None)"
  by code_simp

text \<open>
  Claim C2 says that an error of the index visitor ends the whole walk and is
  its result. With an index visitor that fails at \<open>A2\<close>, the loop over the
  links of \<open>A\<close> breaks, but the error is in the \<open>err\<close> of the case clause and
  the walk of \<open>A\<close> returns \<open>nil\<close>: the root goes on with \<open>B\<close> and the walk
  returns \<open>nil\<close>.
\<close>

theorem index_error_is_dropped:
  "walkPath 3 (gallery ''image/jpeg'') ''http://g'' [] True 0 False indexFailsAtA2
      (fetch_onLeaf saveOk) ()
   = Some ((),
       [Get ''http://g/var/albums'', OnIndex [] ''A'' 0,
        Get ''http://g/var/albums/A'', OnIndex ''A'' ''A1'' 1,
        Get ''http://g/var/albums/A/A1'', OnLeaf ''A/A1'' ''image/jpeg'',
        OnIndex ''A'' ''A2'' 1,
        OnIndex [] ''B'' 0, Get ''http://g/var/albums/B'', OnLeaf ''B'' ''image/jpeg''],
       Return None)"
  by code_simp

text \<open>
  Claim C4 says that a walk whose Fetcher call fails returns an error wrapped
  with the URL and the status. When the Fetcher returns its error with no
  response, no visitor is called, and the wrapping reads \<open>resp.Request.URL\<close>
  of the \<open>nil\<close> response: the walk panics and returns nothing.
\<close>

theorem fetch_failure_panics:
  "walkPath 1 unreachable ''http://g'' ''A'' False 0 False indexOk doNothingOnLeaf ()
   = Some ((), [Get ''http://g/var/albums/A''], Panic)"
  by code_simp

text \<open>
  Claim C7 says that an anchor without \<open>href\<close> makes the extraction return a
  fatal error and that the walk of the page ends with that error. On the
  listing with such an anchor between \<open>A\<close> and \<open>B\<close> the extraction returns the
  error, which is no leaf error, and no link of the page is visited; but the
  error is in the \<open>err\<close> of the case clause and the walk returns \<open>nil\<close>.
\<close>

theorem missing_href_error_is_dropped:
  "getNodes ''/var/albums''
      (RespBody (the (fst (fst (malformed_listing ''http://g/var/albums'' ())))))
     = ([''A''], Some (ErrorString ''No url for <a name=\"top\">''))
   \<and> \<not> is_leafError (ErrorString ''No url for <a name=\"top\">'')
   \<and> walkPath 2 malformed_listing ''http://g'' [] True 0 False indexOk doNothingOnLeaf ()
     = Some ((), [Get ''http://g/var/albums''], Return None)"
  by code_simp

section \<open>The exclusion test and the fixed prefix\<close>

lemma Contains_trans:
  assumes "Contains a b" and "Contains b c"
  shows "Contains a c"
  using assms unfolding Contains_iff_sublist
  by (meson sublist_order.order_trans)

lemma not_Contains_suffix:
  assumes "\<not> Contains p x" and "suffix q p"
  shows "\<not> Contains q x"
  using assms unfolding Contains_iff_sublist
  by (meson suffix_imp_sublist sublist_order.order_trans)

text \<open>Every node that the loop appends has passed the test against the remote
  path.\<close>

lemma getNodes_loop_not_contained:
  assumes "h \<in> set (fst (getNodes_loop rp ts fin acc))"
  shows "h \<in> set acc \<or> \<not> Contains rp h"
  using assms
proof (induction ts arbitrary: acc)
  case Nil
  then show ?case by simp
next
  case (Cons t ts)
  show ?case
  proof (cases "isAnchor t")
    case False
    then show ?thesis using Cons by simp
  next
    case True
    obtain ok node where gh: "getHref t = (ok, node)" by (cases "getHref t") simp
    let ?acc' = "if \<not> Contains rp node then acc @ [node] else acc"
    have acc': "h \<in> set ?acc' \<Longrightarrow> h \<in> set acc \<or> \<not> Contains rp h"
      by (auto split: if_splits)
    show ?thesis
    proof (cases ok)
      case True
      then have "h \<in> set (fst (getNodes_loop rp ts fin ?acc'))"
        using Cons.prems \<open>isAnchor t\<close> gh by simp
      from Cons.IH [OF this] show ?thesis using acc' by blast
    next
      case False
      then have "h \<in> set ?acc'"
        using Cons.prems \<open>isAnchor t\<close> gh by simp
      then show ?thesis using acc' by blast
    qed
  qed
qed

lemma getNodes_not_contained:
  assumes "h \<in> set (fst (getNodes rp body))"
  shows "\<not> Contains rp h"
proof -
  have "h \<in> set (fst (getNodes_loop rp (tokens body) (final_err body) []))"
    using assms by (simp add: getNodes_def split: prod.splits)
  from getNodes_loop_not_contained [OF this] show ?thesis by simp
qed

text \<open>
  The same holds along a whole walk: whenever the index visitor is called for a
  link of the page at \<open>b\<close>, the link is not a substring of the composed path
  of \<open>b\<close>. First the loop, given the property for the walks it starts, then
  the walk by induction on the fuel.
\<close>

lemma walkNodes_index_events:
  assumes WP: "\<And>base depth s s' tr r b h d.
      walkPath n get address base recurse depth verbose onIndex onLeaf s = Some (s', tr, r)
      \<Longrightarrow> OnIndex b h d \<in> set tr \<Longrightarrow> \<not> Contains (path_Join [''/var/albums'', b]) h"
    and nodes: "\<forall>x \<in> set nodes. \<not> Contains (path_Join [''/var/albums'', base]) x"
    and run: "walkNodes n get address base recurse depth verbose onIndex onLeaf nodes s
                = Some (s', tr, r)"
    and ev: "OnIndex b h d \<in> set tr"
  shows "\<not> Contains (path_Join [''/var/albums'', b]) h"
  using nodes run ev
proof (induction nodes arbitrary: s tr)
  case Nil
  then show ?case by simp
next
  case (Cons node rest)
  have rest: "\<forall>x \<in> set rest. \<not> Contains (path_Join [''/var/albums'', base]) x"
    and node: "\<not> Contains (path_Join [''/var/albums'', base]) node"
    using Cons.prems(1) by simp_all
  obtain err s1 where oi: "onIndex base node depth s = (err, s1)"
    by (cases "onIndex base node depth s") simp
  show ?case
  proof (cases "err = None \<and> recurse")
    case False
    show ?thesis
    proof (cases err)
      case None
      then obtain trr where
        "walkNodes n get address base recurse depth verbose onIndex onLeaf rest s1
           = Some (s', trr, r)"
        "tr = OnIndex base node depth # trr"
        using Cons.prems(2) oi False by (auto simp: after_def)
      then show ?thesis using Cons.IH [OF rest] Cons.prems(3) node by auto
    next
      case (Some e)
      then have "tr = [OnIndex base node depth]"
        using Cons.prems(2) oi False by simp
      then show ?thesis using Cons.prems(3) node by auto
    qed
  next
    case True
    then obtain s2 trc rc where wp:
      "walkPath n get address (path_Join [base, node]) recurse (depth + 1) verbose onIndex onLeaf s1
         = Some (s2, trc, rc)"
      using Cons.prems(2) oi
      by (cases "walkPath n get address (path_Join [base, node]) recurse (depth + 1) verbose
                   onIndex onLeaf s1") auto
    have child: "OnIndex b h d \<in> set trc \<Longrightarrow> ?thesis"
      using WP [OF wp] by blast
    show ?thesis
    proof (cases rc)
      case Panic
      then have "tr = OnIndex base node depth # trc"
        using Cons.prems(2) oi True wp by simp
      then show ?thesis using Cons.prems(3) node child by auto
    next
      case (Return e)
      obtain lg err' where h: "handleWalkError e = (lg, err')"
        by (cases "handleWalkError e") simp
      have lg: "OnIndex b h d \<notin> set lg"
        using h by (cases e) (auto split: if_splits)
      show ?thesis
      proof (cases err')
        case (Some e')
        then have "tr = OnIndex base node depth # trc @ lg"
          using Cons.prems(2) oi True wp Return h by simp
        then show ?thesis using Cons.prems(3) node child lg by auto
      next
        case None
        then obtain trr where
          "walkNodes n get address base recurse depth verbose onIndex onLeaf rest s2
             = Some (s', trr, r)"
          "tr = OnIndex base node depth # trc @ lg @ trr"
          using Cons.prems(2) oi True wp Return h by (auto simp: after_def)
        then show ?thesis using Cons.IH [OF rest] Cons.prems(3) node child lg by auto
      qed
    qed
  qed
qed

lemma walkPath_end_no_index: "OnIndex b h d \<notin> set (fst (walkPath_end resp err verbose ct))"
  by (auto simp: walkPath_end_def split: option.splits)

lemma walkPath_index_events:
  assumes "walkPath n get address base recurse depth verbose onIndex onLeaf s = Some (s', tr, r)"
    and "OnIndex b h d \<in> set tr"
  shows "\<not> Contains (path_Join [''/var/albums'', b]) h"
  using assms
proof (induction n arbitrary: base depth s s' tr r b h d)
  case 0
  then show ?case by simp
next
  case (Suc n)
  let ?rp = "path_Join [''/var/albums'', base]"
  let ?url = "address @ ?rp"
  obtain resp err s1 where g: "get ?url s = ((resp, err), s1)"
    by (cases "get ?url s") auto
  show ?case
  proof (cases err)
    case (Some e)
    then have "tr = Get ?url # fst (walkPath_end resp err verbose [])"
      using Suc.prems(1) g by (auto simp: Let_def split: prod.splits)
    then show ?thesis using Suc.prems(2) walkPath_end_no_index by auto
  next
    case None
    show ?thesis
    proof (cases resp)
      case None
      then have "tr = [Get ?url]"
        using Suc.prems(1) g \<open>err = None\<close> by (simp add: Let_def)
      then show ?thesis using Suc.prems(2) by simp
    next
      case (Some rsp)
      show ?thesis
      proof (cases "getContentType rsp = ''text/html''")
        case False
        obtain e s2 where ol: "onLeaf rsp base (getContentType rsp) s1 = (e, s2)"
          by (cases "onLeaf rsp base (getContentType rsp) s1") simp
        have "tr = Get ?url # OnLeaf base (getContentType rsp)
                     # fst (walkPath_end resp (map_option LeafError e) verbose (getContentType rsp))"
          using Suc.prems(1) g \<open>err = None\<close> Some False ol
          by (auto simp: Let_def split: prod.splits)
        then show ?thesis using Suc.prems(2) walkPath_end_no_index by auto
      next
        case True
        obtain nodes err_inner where gn: "getNodes ?rp (RespBody rsp) = (nodes, err_inner)"
          by (cases "getNodes ?rp (RespBody rsp)") simp
        have nodes: "\<forall>x \<in> set nodes. \<not> Contains ?rp x"
          using getNodes_not_contained [of _ ?rp "RespBody rsp"] gn by auto
        show ?thesis
        proof (cases err_inner)
          case (Some e)
          then have "tr = Get ?url # fst (walkPath_end resp None verbose (getContentType rsp))"
            using Suc.prems(1) g \<open>err = None\<close> \<open>resp = Some rsp\<close> True gn
            by (auto simp: Let_def split: prod.splits)
          then show ?thesis using Suc.prems(2) walkPath_end_no_index by auto
        next
          case None
          then obtain s2 trn rn where wn:
            "walkNodes n get address base recurse depth verbose onIndex onLeaf nodes s1
               = Some (s2, trn, rn)"
            using Suc.prems(1) g \<open>err = None\<close> \<open>resp = Some rsp\<close> True gn
            by (cases "walkNodes n get address base recurse depth verbose onIndex onLeaf nodes s1")
               (auto simp: Let_def)
          have inner: ?thesis if ev: "OnIndex b h d \<in> set trn"
          proof (rule walkNodes_index_events [OF _ nodes wn ev])
            fix base' depth' t t' tr' r' b' h' d'
            assume "walkPath n get address base' recurse depth' verbose onIndex onLeaf t
                      = Some (t', tr', r')"
              and "OnIndex b' h' d' \<in> set tr'"
            then show "\<not> Contains (path_Join [''/var/albums'', b']) h'"
              by (rule Suc.IH)
          qed
          have "tr = Get ?url # trn
                \<or> tr = Get ?url # trn @ fst (walkPath_end resp None verbose (getContentType rsp))"
            using Suc.prems(1) g \<open>err = None\<close> \<open>resp = Some rsp\<close> True gn None wn
            by (cases rn) (auto simp: Let_def split: prod.splits)
          then show ?thesis using Suc.prems(2) walkPath_end_no_index inner by auto
        qed
      qed
    qed
  qed
qed

text \<open>
  Cleaning only cuts the output back at a \<open>..\<close> element. On a path in which
  the two dots do not occur next to each other the output only grows, so what
  has been written stays a prefix of the result.
\<close>

lemma Clean_loop_keeps_prefix:
  assumes "\<not> Contains p ''..''" and "prefix P out"
  shows "prefix P (Clean_loop rooted out dotdot p)"
  using assms
proof (induction rooted out dotdot p rule: Clean_loop.induct)
  case (1 rooted out dotdot)
  then show ?case by simp
next
  case (2 rooted out dotdot c rest)
  have rest: "\<not> Contains rest ''..''"
    using "2.prems"(1) not_Contains_suffix [of "c # rest" "''..''" rest] by (simp add: suffix_Cons)
  have nodd: "\<not> (c = CHR ''.'' \<and> rest \<noteq> [] \<and> hd rest = CHR ''.'')"
  proof
    assume a: "c = CHR ''.'' \<and> rest \<noteq> [] \<and> hd rest = CHR ''.''"
    then obtain r where "rest = CHR ''.'' # r" by (cases rest) auto
    then have "prefix ''..'' (c # rest)" using a by simp
    then have "sublist ''..'' (c # rest)" by (rule prefix_imp_sublist)
    then show False using "2.prems"(1) unfolding Contains_iff_sublist by blast
  qed
  show ?case
  proof (cases "c = CHR ''/''")
    case True
    then show ?thesis using "2.IH"(1) [OF True rest "2.prems"(2)] by simp
  next
    case slash: False
    show ?thesis
    proof (cases "c = CHR ''.'' \<and> (rest = [] \<or> hd rest = CHR ''/'')")
      case True
      then show ?thesis using "2.IH"(2) [OF slash True rest "2.prems"(2)] slash by simp
    next
      case dot: False
      have third: "\<not> (c = CHR ''.'' \<and> hd rest = CHR ''.''
                       \<and> (tl rest = [] \<or> hd (tl rest) = CHR ''/''))"
        using nodd dot by auto
      let ?out' = "(if rooted \<and> length out \<noteq> 1 \<or> \<not> rooted \<and> length out \<noteq> 0
                    then out @ ''/'' else out)"
      let ?p' = "dropWhile (\<lambda>x. x \<noteq> CHR ''/'') (c # rest)"
      have p': "\<not> Contains ?p' ''..''"
        using "2.prems"(1) not_Contains_suffix suffix_dropWhile by blast
      have o': "prefix P (?out' @ takeWhile (\<lambda>x. x \<noteq> CHR ''/'') (c # rest))"
        using "2.prems"(2) by (auto simp: prefix_def)
      have step: "Clean_loop rooted out dotdot (c # rest)
                    = Clean_loop rooted
                        (?out' @ takeWhile (\<lambda>x. x \<noteq> CHR ''/'') (c # rest)) dotdot ?p'"
        by (subst Clean_loop.simps(2)) (simp only: slash dot third if_False Let_def)
      have "prefix P (Clean_loop rooted
                 (?out' @ takeWhile (\<lambda>x. x \<noteq> CHR ''/'') (c # rest)) dotdot ?p')"
        using "2.IH"(6) [OF slash dot third refl p' o'] .
      then show ?thesis unfolding step .
    qed
  qed
qed

text \<open>So every base path in which \<open>..\<close> does not occur is composed to a path
  below the prefix.\<close>

lemma path_Join_keeps_prefix:
  assumes "\<not> Contains base ''..''"
  shows "prefix ''/var/albums'' (path_Join [''/var/albums'', base])"
proof (cases "base = []")
  case True
  have "path_Join [''/var/albums'', []] = ''/var/albums''" by code_simp
  then show ?thesis using True by simp
next
  case False
  have "path_Join [''/var/albums'', base] = Clean_loop True ''/var/albums'' 1 base
        \<or> path_Join [''/var/albums'', base] = ''.''
            \<and> Clean_loop True ''/var/albums'' 1 base = []"
    using False by (simp add: path_Join_def Clean_def Let_def)
  moreover have "prefix ''/var/albums'' (Clean_loop True ''/var/albums'' 1 base)"
    using Clean_loop_keeps_prefix [OF assms, of "''/var/albums''" "''/var/albums''" True 1]
    by simp
  ultimately show ?thesis by auto
qed

lemma path_Join_contains_prefix:
  assumes "\<not> Contains base ''..''"
  shows "Contains (path_Join [''/var/albums'', base]) ''/var/albums''"
  using path_Join_keeps_prefix [OF assms] unfolding Contains_iff_sublist
  by (rule prefix_imp_sublist)

text \<open>
  Claim C10 as stated fails: \<open>path.Join\<close> cleans the composed path, so a base
  path that climbs with \<open>..\<close> gives a remote path above the prefix. At the base
  \<open>..\<close> the remote path is \<open>/var\<close>, the href \<open>albums\<close> is a substring of
  \<open>/var/albums\<close> and not of \<open>/var\<close>, and the walk hands it to the index
  visitor.
\<close>

theorem prefix_substring_not_excluded_above_prefix:
  "Contains ''/var/albums'' ''albums''
   \<and> getNodes (path_Join [''/var/albums'', ''..''])
       \<lparr>tokens = [anchor ''albums''], final_err = EOF\<rparr> = ([''albums''], None)
   \<and> walkPath 1 parent_listing ''http://g'' ''..'' False 0 False indexOk doNothingOnLeaf ()
     = Some ((), [Get ''http://g/var'', OnIndex ''..'' ''albums'' 0], Return None)"
  by code_simp

text \<open>
  Claim C10, amended. The test is made against the composed and cleaned path
  \<open>path.Join("/var/albums", base)\<close>. For every base path whose composed path
  still contains \<open>/var/albums\<close> (by \<open>path_Join_contains_prefix\<close>, every base
  path in which \<open>..\<close> does not occur), every href that is a substring of
  \<open>/var/albums\<close> is excluded at every node of the walk: it is not among the
  nodes extracted from a page fetched at that base, and no walk passes it to
  the index visitor as a link of the page at that base.
\<close>

theorem prefix_substrings_excluded:
  assumes "Contains (path_Join [''/var/albums'', base]) ''/var/albums''"
    and "Contains ''/var/albums'' h"
  shows "h \<notin> set (fst (getNodes (path_Join [''/var/albums'', base]) body))
         \<and> (walkPath n get address start recurse depth verbose onIndex onLeaf s
               = Some (s', tr, r)
             \<longrightarrow> OnIndex base h d \<notin> set tr)"
proof -
  have sub: "Contains (path_Join [''/var/albums'', base]) h"
    using assms by (rule Contains_trans)
  have nodes: "h \<notin> set (fst (getNodes (path_Join [''/var/albums'', base]) body))"
    using sub getNodes_not_contained by blast
  have walk: "OnIndex base h d \<notin> set tr"
    if "walkPath n get address start recurse depth verbose onIndex onLeaf s = Some (s', tr, r)"
    using walkPath_index_events [OF that] sub by blast
  show ?thesis using nodes walk by blast
qed

theorem prefix_substrings_excluded_witness:
  "''albums'' \<notin> set (fst (getNodes (path_Join [''/var/albums'', ''A''])
       \<lparr>tokens = [anchor ''albums'', anchor ''A1''], final_err = EOF\<rparr>))
   \<and> OnIndex ''A'' ''albums'' 0
       \<notin> set [Get ''http://g/var/albums/A'', OnIndex ''A'' ''A1'' 0]"
proof -
  have a: "Contains (path_Join [''/var/albums'', ''A'']) ''/var/albums''" by code_simp
  have b: "Contains ''/var/albums'' ''albums''" by code_simp
  have run: "walkPath 1 albums_listing ''http://g'' ''A'' False 0 False indexOk
               doNothingOnLeaf ()
             = Some ((), [Get ''http://g/var/albums/A'', OnIndex ''A'' ''A1'' 0], Return None)"
    by code_simp
  have nodes: "''albums'' \<notin> set (fst (getNodes (path_Join [''/var/albums'', ''A''])
       \<lparr>tokens = [anchor ''albums'', anchor ''A1''], final_err = EOF\<rparr>))"
    by (rule prefix_substrings_excluded [OF a b, THEN conjunct1])
  have walk: "OnIndex ''A'' ''albums'' 0
       \<notin> set [Get ''http://g/var/albums/A'', OnIndex ''A'' ''A1'' 0]"
    by (rule prefix_substrings_excluded [OF a b, THEN conjunct2, THEN mp, OF run])
  show ?thesis by (rule conjI [OF nodes walk])
qed

end
